theory Spec2Isabelle
  imports Complex_Main
begin

section \<open>Outcomes of Python calls\<close>

text \<open>
  Python floats are modelled as real numbers (exact arithmetic); the one place where the
  source produces \<open>nan\<close> on purpose, the loss function, returns \<open>None\<close> for it.
  A call either returns a value or raises; a method that mutates its object returns the
  outcome together with the object as it is when the call ends, so that what a raising call
  leaves behind is part of the model.
\<close>

datatype error = ValueError | IndexError | NanPropagated

datatype 'a outcome = Return 'a | Raise error

section \<open>tasks.py: the ReluDrop task\<close>

record ReluDrop =
  duration :: real
  t_release :: real
  slope :: real
  t_drop :: real
  l_drop :: real

text \<open>
  \<open>ReluDrop.__init__\<close>: the five parameters are converted with \<open>float\<close> and stored in the
  attributes directly (the private \<open>_slope\<close>, \<open>_t_drop\<close>, \<open>_l_drop\<close>, not through the
  property setters). There is no raise statement on this path.
\<close>

definition ReluDrop_init :: "real \<Rightarrow> real \<Rightarrow> real \<Rightarrow> real \<Rightarrow> real \<Rightarrow> ReluDrop outcome" where
  "ReluDrop_init d r s td ld =
     Return \<lparr>duration = d, t_release = r, slope = s, t_drop = td, l_drop = ld\<rparr>"

text \<open>
  \<open>ReluDrop.__call__\<close> at a scalar time: the relative time, the linear loss, then the two
  masked assignments in the order of the source (the second one wins where both apply).
\<close>

definition call :: "ReluDrop \<Rightarrow> real \<Rightarrow> real option" where
  "call T t0 =
     (let t = t0 - t_release T;
          loss = Some (slope T * t);
          loss = (if t < - (1 / 10 ^ 9) then None else loss);
          loss = (if t \<ge> t_drop T then Some (l_drop T) else loss)
      in loss)"

text \<open>\<open>ReluDrop._check_non_decreasing\<close>.\<close>

definition check_non_decreasing :: "real \<Rightarrow> real \<Rightarrow> real \<Rightarrow> unit outcome" where
  "check_non_decreasing s td ld = (if ld < s * td then Raise ValueError else Return ())"

text \<open>The property setters: the check first, the assignment only when it did not raise.\<close>

definition set_slope :: "ReluDrop \<Rightarrow> real \<Rightarrow> unit outcome \<times> ReluDrop" where
  "set_slope T v =
     (case check_non_decreasing v (t_drop T) (l_drop T) of
        Raise e \<Rightarrow> (Raise e, T)
      | Return u \<Rightarrow> (Return (), T\<lparr>slope := v\<rparr>))"

definition set_t_drop :: "ReluDrop \<Rightarrow> real \<Rightarrow> unit outcome \<times> ReluDrop" where
  "set_t_drop T v =
     (case check_non_decreasing (slope T) v (l_drop T) of
        Raise e \<Rightarrow> (Raise e, T)
      | Return u \<Rightarrow> (Return (), T\<lparr>t_drop := v\<rparr>))"

definition set_l_drop :: "ReluDrop \<Rightarrow> real \<Rightarrow> unit outcome \<times> ReluDrop" where
  "set_l_drop T v =
     (case check_non_decreasing (slope T) (t_drop T) v of
        Raise e \<Rightarrow> (Raise e, T)
      | Return u \<Rightarrow> (Return (), T\<lparr>l_drop := v\<rparr>))"

text \<open>
  Python computes every float operation rounded to the nearest double. The loss function
  and the setters above are written in exact arithmetic; \<open>shift_origin\<close> combines
  subtractions, a product and the setters' comparisons, and whether a check raises there
  can depend on the rounding. For it the rounding of a float result is a parameter
  \<open>rnd\<close>, applied where the source computes a difference or a product (negation, \<open>max\<close>
  and comparisons of doubles are exact); results are taken to be finite. \<open>no_rounding\<close> is
  exact arithmetic, which is what doubles give on small integers.
\<close>

definition no_rounding :: "real \<Rightarrow> real" where
  "no_rounding x = x"

text \<open>\<open>ReluDrop.__call__\<close>, \<open>_check_non_decreasing\<close> and the setters, with rounded results.\<close>

definition call_fl :: "(real \<Rightarrow> real) \<Rightarrow> ReluDrop \<Rightarrow> real \<Rightarrow> real option" where
  "call_fl rnd T t0 =
     (let t = rnd (t0 - t_release T);
          loss = Some (rnd (slope T * t));
          loss = (if t < - (1 / 10 ^ 9) then None else loss);
          loss = (if t \<ge> t_drop T then Some (l_drop T) else loss)
      in loss)"

definition check_non_decreasing_fl :: "(real \<Rightarrow> real) \<Rightarrow> real \<Rightarrow> real \<Rightarrow> real \<Rightarrow> unit outcome" where
  "check_non_decreasing_fl rnd s td ld =
     (if ld < rnd (s * td) then Raise ValueError else Return ())"

definition set_t_drop_fl :: "(real \<Rightarrow> real) \<Rightarrow> ReluDrop \<Rightarrow> real \<Rightarrow> unit outcome \<times> ReluDrop" where
  "set_t_drop_fl rnd T v =
     (case check_non_decreasing_fl rnd (slope T) v (l_drop T) of
        Raise e \<Rightarrow> (Raise e, T)
      | Return u \<Rightarrow> (Return (), T\<lparr>t_drop := v\<rparr>))"

definition set_l_drop_fl :: "(real \<Rightarrow> real) \<Rightarrow> ReluDrop \<Rightarrow> real \<Rightarrow> unit outcome \<times> ReluDrop" where
  "set_l_drop_fl rnd T v =
     (case check_non_decreasing_fl rnd (slope T) (t_drop T) v of
        Raise e \<Rightarrow> (Raise e, T)
      | Return u \<Rightarrow> (Return (), T\<lparr>l_drop := v\<rparr>))"

text \<open>
  \<open>ReluDrop.shift_origin\<close>. The release time is a plain attribute and is overwritten first;
  \<open>t_drop\<close> and \<open>l_drop\<close> go through their setters, so either assignment may raise and leave
  the earlier assignments in place. In Python a \<open>nan\<close> loss would be subtracted from
  \<open>l_drop\<close>; a real attribute cannot hold it, so that branch ends in \<open>NanPropagated\<close>. It is
  never taken when a double rounds to itself (\<open>shift_origin_no_nan\<close> below).
\<close>

definition shift_origin :: "(real \<Rightarrow> real) \<Rightarrow> ReluDrop \<Rightarrow> real \<Rightarrow> real outcome \<times> ReluDrop" where
  "shift_origin rnd T t =
     (let t_excess = rnd (t - t_release T);
          T1 = T\<lparr>t_release := max 0 (- t_excess)\<rparr>
      in if t_release T1 = 0 then
           (case call_fl rnd T1 t_excess of
              None \<Rightarrow> (Raise NanPropagated, T1)
            | Some loss_inc \<Rightarrow>
                (case set_t_drop_fl rnd T1 (max 0 (rnd (t_drop T1 - t_excess))) of
                   (Raise e, T2) \<Rightarrow> (Raise e, T2)
                 | (Return u, T2) \<Rightarrow>
                     (case set_l_drop_fl rnd T2 (rnd (l_drop T2 - loss_inc)) of
                        (Raise e, T3) \<Rightarrow> (Raise e, T3)
                      | (Return u', T3) \<Rightarrow> (Return loss_inc, T3))))
         else (Return 0, T1))"

text \<open>Example tasks used for concrete evaluations.\<close>

definition task_a :: ReluDrop where
  "task_a = \<lparr>duration = 1, t_release = 2, slope = 1, t_drop = 4, l_drop = 10\<rparr>"

definition task_b :: ReluDrop where
  "task_b = \<lparr>duration = 1, t_release = 0, slope = 1, t_drop = 1, l_drop = 1\<rparr>"



text \<open>A task whose slope and drop loss are the double next above 1, and a rounding that is
  exact except on the product \<open>(1 + ulp) * 3/4\<close>, which lies half way between two doubles
  and goes to the one with the even significand.\<close>

definition ulp :: real where
  "ulp = 1 / 2 ^ 52"

definition task_ulp :: ReluDrop where
  "task_ulp = \<lparr>duration = 1, t_release = 0, slope = 1 + ulp, t_drop = 1, l_drop = 1 + ulp\<rparr>"

definition round_product :: "real \<Rightarrow> real" where
  "round_product x = (if x = (1 + ulp) * (3 / 4) then 3 / 4 + ulp else x)"

section \<open>mdp/environments.py: factorial-base encodings of index sequences\<close>

text \<open>
  Python integers are unbounded: \<open>int\<close>. \<open>list.index\<close> and \<open>list.remove\<close> raise
  \<open>ValueError\<close> when the element is absent, \<open>list.pop\<close> raises \<open>IndexError\<close> out of range
  and counts a negative index from the end. \<open>//\<close> and \<open>%\<close> are floor division and its
  remainder, which is what \<open>div\<close> and \<open>mod\<close> are on \<open>int\<close>. The sequence length is a
  natural number (\<open>len(seq)\<close>, and the \<open>length\<close> argument of \<open>int_to_seq\<close>).
\<close>

fun list_index :: "int list \<Rightarrow> int \<Rightarrow> nat outcome" where
  "list_index [] n = Raise ValueError"
| "list_index (x # xs) n =
     (if x = n then Return 0
      else (case list_index xs n of Raise e \<Rightarrow> Raise e | Return k \<Rightarrow> Return (Suc k)))"

fun list_remove :: "int list \<Rightarrow> int \<Rightarrow> int list outcome" where
  "list_remove [] n = Raise ValueError"
| "list_remove (x # xs) n =
     (if x = n then Return xs
      else (case list_remove xs n of Raise e \<Rightarrow> Raise e | Return ys \<Rightarrow> Return (x # ys)))"

definition list_pop :: "int list \<Rightarrow> int \<Rightarrow> (int \<times> int list) outcome" where
  "list_pop xs i =
     (let n = int (length xs); j = (if i < 0 then i + n else i)
      in if 0 \<le> j \<and> j < n
         then Return (xs ! nat j, take (nat j) xs @ drop (Suc (nat j)) xs)
         else Raise IndexError)"

text \<open>\<open>list(range(n))\<close>.\<close>

definition range_list :: "nat \<Rightarrow> int list" where
  "range_list n = map int [0..<n]"

text \<open>
  The body of the \<open>for\<close> loop of \<open>seq_to_int\<close>; \<open>i\<close> is the counter of \<open>enumerate\<close>.
  \<open>length - 1 - i\<close> is never negative there, since \<open>i < len(seq)\<close>.
\<close>

fun seq_to_int_loop :: "nat \<Rightarrow> int list \<Rightarrow> int \<Rightarrow> nat \<Rightarrow> int list \<Rightarrow> int outcome" where
  "seq_to_int_loop len seq_rem num i [] = Return num"
| "seq_to_int_loop len seq_rem num i (n # ns) =
     (case list_index seq_rem n of
        Raise e \<Rightarrow> Raise e
      | Return k \<Rightarrow>
          (case list_remove seq_rem n of
             Raise e \<Rightarrow> Raise e
           | Return seq_rem' \<Rightarrow>
               seq_to_int_loop len seq_rem' (num + int k * fact (len - 1 - i)) (Suc i) ns))"

definition seq_to_int :: "int list \<Rightarrow> bool \<Rightarrow> int outcome" where
  "seq_to_int seq check_input =
     (let len = length seq; seq_rem = range_list len
      in if check_input \<and> set seq \<noteq> set seq_rem then Raise ValueError
         else seq_to_int_loop len seq_rem 0 0 seq)"

text \<open>The \<open>while\<close> loop of \<open>int_to_seq\<close>: it ends because each \<open>pop\<close> shortens \<open>seq_rem\<close>.\<close>

function int_to_seq_loop :: "int list \<Rightarrow> int \<Rightarrow> int list \<Rightarrow> int list outcome" where
  "int_to_seq_loop seq_rem num seq =
     (if length seq_rem > 0 then
        (let radix = fact (length seq_rem - 1);
             i = num div radix;
             num' = num mod radix
         in case list_pop seq_rem i of
              Raise e \<Rightarrow> Raise e
            | Return (n, seq_rem') \<Rightarrow> int_to_seq_loop seq_rem' num' (seq @ [n]))
      else Return seq)"
  by pat_completeness auto
termination
  by (relation "measure (\<lambda>(seq_rem, num, seq). length seq_rem)")
     (auto simp: list_pop_def Let_def split: if_splits)

declare int_to_seq_loop.simps [simp del]


text \<open>A permutation of \<open>{0..n)\<close>, as a list.\<close>

definition is_permutation :: "nat \<Rightarrow> int list \<Rightarrow> bool" where
  "is_permutation n seq \<longleftrightarrow> length seq = n \<and> distinct seq \<and> set seq = set (range_list n)"

section \<open>Environment reset (mdp/environments.py and Py/task_scheduling/env_tasking.py)\<close>

text \<open>
  The two \<open>reset\<close> methods, as far as they decide which problem the node is built from.
  The problem generator, the tree-search node classes and the optimal solver are not part of
  these files; they are parameters: what one call of the generator yields (a problem and,
  when solved, its solution), and the node constructor with the loss of a new node. The
  observation that \<open>reset\<close> returns in the end and \<open>_update_spaces\<close> read the state only and
  are left out: a normal return is \<open>Return ()\<close> with the new state.
\<close>

record ('task, 'node, 'sol) collaborators =
  gen_problem :: "'task list \<times> real list"
  gen_solution :: "'sol"
  gen_seq_opt :: "nat list"
  node_new :: "bool \<Rightarrow> 'task list \<Rightarrow> real list \<Rightarrow> 'node"
  node_cls_new :: "'task list option \<Rightarrow> real list option \<Rightarrow> 'node outcome"
  node_loss :: "'node \<Rightarrow> real"

text \<open>\<open>mdp.environments.Base\<close>: the attributes that \<open>reset\<close> reads or writes.\<close>

record ('task, 'node) env =
  n_tasks :: nat
  n_ch :: nat
  time_shift :: bool
  node :: "'node option"
  tasks_init :: "'task list option"
  ch_avail_init :: "real list option"
  seq_opt :: "nat list option"
  loss_agg :: "real option"

text \<open>The part of \<open>Base.reset\<close> after the problem is chosen.\<close>

definition Base_reset_node ::
  "('task, 'node, 'sol) collaborators \<Rightarrow> ('task, 'node) env \<Rightarrow> 'task list \<Rightarrow> real list \<Rightarrow>
     unit outcome \<times> ('task, 'node) env" where
  "Base_reset_node X E tasks ch_avail =
     (let E1 = E\<lparr>tasks_init := Some tasks, ch_avail_init := Some ch_avail\<rparr>;
          nd = node_new X (time_shift E1) tasks ch_avail;
          E2 = E1\<lparr>node := Some nd\<rparr>;
          E3 = E2\<lparr>loss_agg := Some (node_loss X nd)\<rparr>
      in (Return (), E3))"

definition Base_reset ::
  "('task, 'node, 'sol) collaborators \<Rightarrow> ('task, 'node) env \<Rightarrow> 'task list option \<Rightarrow>
     real list option \<Rightarrow> bool \<Rightarrow> unit outcome \<times> ('task, 'node) env" where
  "Base_reset X E tasks ch_avail solve =
     (if tasks = None \<or> ch_avail = None then
        (let (tasks', ch_avail') = gen_problem X;
             E1 = E\<lparr>seq_opt := (if solve then Some (gen_seq_opt X) else None)\<rparr>
         in Base_reset_node X E1 tasks' ch_avail')
      else if length (the tasks) \<noteq> n_tasks E then (Raise ValueError, E)
      else if length (the ch_avail) \<noteq> n_ch E then (Raise ValueError, E)
      else Base_reset_node X E (the tasks) (the ch_avail))"

text \<open>
  \<open>env_tasking.BaseTaskingEnv\<close>. The node class keeps the problem in the class attributes
  \<open>_tasks_init\<close> and \<open>_ch_avail_init\<close>, and \<open>node_cls()\<close> builds a node from them.
\<close>

record ('task, 'node, 'sol) tasking_env =
  te_n_tasks :: nat
  te_n_ch :: nat
  te_node :: "'node option"
  te_solution :: "'sol option"
  te_loss_agg :: "real option"
  cls_tasks_init :: "'task list option"
  cls_ch_avail_init :: "real list option"

definition BaseTaskingEnv_reset_node ::
  "('task, 'node, 'sol) collaborators \<Rightarrow> ('task, 'node, 'sol) tasking_env \<Rightarrow>
     unit outcome \<times> ('task, 'node, 'sol) tasking_env" where
  "BaseTaskingEnv_reset_node X E =
     (case node_cls_new X (cls_tasks_init E) (cls_ch_avail_init E) of
        Raise e \<Rightarrow> (Raise e, E)
      | Return nd \<Rightarrow> (Return (), E\<lparr>te_node := Some nd, te_loss_agg := Some (node_loss X nd)\<rparr>))"

definition BaseTaskingEnv_reset ::
  "('task, 'node, 'sol) collaborators \<Rightarrow> ('task, 'node, 'sol) tasking_env \<Rightarrow>
     'task list option \<Rightarrow> real list option \<Rightarrow> bool \<Rightarrow> bool \<Rightarrow>
     unit outcome \<times> ('task, 'node, 'sol) tasking_env" where
  "BaseTaskingEnv_reset X E tasks ch_avail persist solve =
     (if \<not> persist then
        (if tasks = None \<or> ch_avail = None then
           (let (tasks', ch_avail') = gen_problem X;
                E1 = E\<lparr>te_solution := (if solve then Some (gen_solution X) else None)\<rparr>;
                E2 = E1\<lparr>cls_tasks_init := Some tasks', cls_ch_avail_init := Some ch_avail'\<rparr>
            in BaseTaskingEnv_reset_node X E2)
         else if length (the tasks) \<noteq> te_n_tasks E then (Raise ValueError, E)
         else if length (the ch_avail) \<noteq> te_n_ch E then (Raise ValueError, E)
         else BaseTaskingEnv_reset_node X
                (E\<lparr>cls_tasks_init := tasks, cls_ch_avail_init := ch_avail\<rparr>))
      else BaseTaskingEnv_reset_node X E)"

text \<open>
  A concrete instance for evaluation: tasks are numbered, a node is the problem it was built
  from, and the node class refuses to build a node before a problem was stored.
\<close>

definition X0 :: "(nat, nat list \<times> real list, unit) collaborators" where
  "X0 = \<lparr>gen_problem = ([0, 1], [0]), gen_solution = (), gen_seq_opt = [0, 1],
          node_new = (\<lambda>sh ts ca. (ts, ca)),
          node_cls_new = (\<lambda>ts ca. case ts of None \<Rightarrow> Raise ValueError
                            | Some t \<Rightarrow> (case ca of None \<Rightarrow> Raise ValueError
                                        | Some c \<Rightarrow> Return (t, c))),
          node_loss = (\<lambda>nd. 0)\<rparr>"

definition E0 :: "(nat, nat list \<times> real list) env" where
  "E0 = \<lparr>n_tasks = 2, n_ch = 1, time_shift = False, node = None, tasks_init = None,
          ch_avail_init = None, seq_opt = None, loss_agg = None\<rparr>"

definition TE0 :: "(nat, nat list \<times> real list, unit) tasking_env" where
  "TE0 = \<lparr>te_n_tasks = 2, te_n_ch = 1, te_node = None, te_solution = None, te_loss_agg = None,
           cls_tasks_init = Some [0, 1], cls_ch_avail_init = Some [0]\<rparr>"

section \<open>Schedule nodes and branch-and-bound\<close>

text \<open>
  The tree-search module (\<open>tree_search\<close>, \<open>algorithms.base.branch_bound\<close>) is not among the
  source files; only its callers are. This section models it from the specification
  (sections 3, 4.1, 4.2 and 4.3).
\<close>

text \<open>
  Modelled from the spec: how a schedule node (missing from the source files) prices a task
  at a permitted start time, section 3: \<open>slope * (t - t_release)\<close> before the drop time and
  \<open>l_drop\<close> from it on. \<open>call_task_loss\<close> below shows that this is the value of
  \<open>__call__\<close> at every \<open>t \<ge> t_release\<close>, and a node evaluates a task nowhere else.
\<close>

definition task_loss :: "ReluDrop \<Rightarrow> real \<Rightarrow> real" where
  "task_loss T t = (if t_drop T \<le> t - t_release T then l_drop T else slope T * (t - t_release T))"

text \<open>
  Modelled from the spec: the Schedule Node of section 3. \<open>seq_rem\<close> is kept as a list in
  ascending order, the order in which \<open>branch\<close> yields the children; an undefined entry of
  \<open>t_ex\<close> or \<open>ch_ex\<close> is \<open>None\<close>.
\<close>

record sched_node =
  tasks :: "ReluDrop list"
  ch_avail :: "real list"
  seq :: "nat list"
  seq_rem :: "nat list"
  t_ex :: "real option list"
  ch_ex :: "nat option list"
  loss :: real

text \<open>Modelled from the spec: \<open>new(tasks, ch_avail)\<close> of section 4.1 (the variant without shift).\<close>

definition new_node :: "ReluDrop list \<Rightarrow> real list \<Rightarrow> sched_node" where
  "new_node ts ch =
     \<lparr>tasks = ts, ch_avail = ch, seq = [], seq_rem = [0..<length ts],
      t_ex = replicate (length ts) None, ch_ex = replicate (length ts) None, loss = 0\<rparr>"

text \<open>
  Modelled from the spec: \<open>c* = argmin_c ch_avail[c]\<close>, ties broken by the smallest channel
  index: the first position that holds the minimum.
\<close>

fun first_index :: "real list \<Rightarrow> real \<Rightarrow> nat" where
  "first_index [] v = 0"
| "first_index (x # xs) v = (if x = v then 0 else Suc (first_index xs v))"

definition argmin_ch :: "real list \<Rightarrow> nat" where
  "argmin_ch ch = first_index ch (Min (set ch))"

text \<open>
  Modelled from the spec: \<open>extend(i)\<close> of section 4.1. An index outside \<open>seq_rem\<close> is the
  bad-sequence fault. The spec defines no channel choice for an empty channel list; the
  model makes that the bad-shape fault.
\<close>

datatype fault = BadSequence | BadShape

datatype 'a result = Ok 'a | Fault fault

definition extend_core :: "sched_node \<Rightarrow> nat \<Rightarrow> sched_node" where
  "extend_core N i =
     (let c = argmin_ch (ch_avail N);
          T = tasks N ! i;
          t = max (ch_avail N ! c) (t_release T)
      in N\<lparr>t_ex := (t_ex N)[i := Some t],
            ch_ex := (ch_ex N)[i := Some c],
            loss := loss N + task_loss T t,
            ch_avail := (ch_avail N)[c := t + duration T],
            seq := seq N @ [i],
            seq_rem := remove1 i (seq_rem N)\<rparr>)"

definition extend :: "sched_node \<Rightarrow> nat \<Rightarrow> sched_node result" where
  "extend N i =
     (if i \<notin> set (seq_rem N) then Fault BadSequence
      else if ch_avail N = [] then Fault BadShape
      else Ok (extend_core N i))"

text \<open>Modelled from the spec: \<open>extend_many(indices)\<close>, which stops at the first fault.\<close>

fun extend_many :: "sched_node \<Rightarrow> nat list \<Rightarrow> sched_node result" where
  "extend_many N [] = Ok N"
| "extend_many N (i # is) =
     (case extend N i of Fault e \<Rightarrow> Fault e | Ok N' \<Rightarrow> extend_many N' is)"

text \<open>
  Modelled from the spec: \<open>roll_out(rng)\<close>. The random source only picks the order in which
  the remaining tasks are appended, so it is modelled by the function that gives that order
  for a node.
\<close>

definition roll_out :: "(sched_node \<Rightarrow> nat list) \<Rightarrow> sched_node \<Rightarrow> sched_node result" where
  "roll_out order N = extend_many N (order N)"

text \<open>Modelled from the spec: \<open>branch()\<close> without a random source: one child per remaining
  task, in ascending order of the task index.\<close>

fun collect :: "'a result list \<Rightarrow> 'a list result" where
  "collect [] = Ok []"
| "collect (r # rs) =
     (case r of Fault e \<Rightarrow> Fault e
      | Ok x \<Rightarrow> (case collect rs of Fault e \<Rightarrow> Fault e | Ok xs \<Rightarrow> Ok (x # xs)))"

definition branch :: "sched_node \<Rightarrow> sched_node list result" where
  "branch N = collect (map (extend N) (seq_rem N))"

text \<open>Modelled from the spec: the lower and the upper bound of section 4.2.\<close>

definition loss_lower :: "sched_node \<Rightarrow> real" where
  "loss_lower N =
     loss N + (\<Sum>i\<leftarrow>seq_rem N.
        task_loss (tasks N ! i) (max (Min (set (ch_avail N))) (t_release (tasks N ! i))))"

definition loss_upper :: "sched_node \<Rightarrow> real" where
  "loss_upper N =
     loss N + (\<Sum>i\<leftarrow>seq_rem N.
        task_loss (tasks N ! i)
          (max (Max (set (ch_avail N))) (t_release (tasks N ! i))
             + (real (length (seq_rem N)) - 1) * duration (tasks N ! i)))"

text \<open>
  Modelled from the spec: the default priority of section 4.3: the smallest lower bound
  first, then the greatest depth, then the smallest index of the task branched on last; the
  queue is a list in insertion order, and of equally good nodes the one inserted first is
  popped.
\<close>

definition better :: "sched_node \<Rightarrow> sched_node \<Rightarrow> bool" where
  "better N M \<longleftrightarrow>
     loss_lower N < loss_lower M \<or>
     (loss_lower N = loss_lower M \<and>
        (length (seq N) > length (seq M) \<or>
         (length (seq N) = length (seq M) \<and> seq N \<noteq> [] \<and> seq M \<noteq> [] \<and> last (seq N) < last (seq M))))"

fun pop_best :: "sched_node \<Rightarrow> sched_node list \<Rightarrow> sched_node" where
  "pop_best b [] = b"
| "pop_best b (x # xs) = pop_best (if better x b then x else b) xs"

text \<open>The incumbent bound \<open>U\<close> is \<open>None\<close> for \<open>+\<infinity>\<close>; \<open>below x U\<close> is \<open>x < U\<close>.\<close>

definition below :: "real \<Rightarrow> real option \<Rightarrow> bool" where
  "below x U = (case U of None \<Rightarrow> True | Some u \<Rightarrow> x < u)"

type_synonym schedule = "real option list \<times> nat option list"

text \<open>The weight of a node in the termination argument: the size of the subtree below it.\<close>

fun subtree_size :: "nat \<Rightarrow> nat" where
  "subtree_size 0 = 1"
| "subtree_size (Suc k) = 1 + Suc k * subtree_size k"

definition queue_weight :: "sched_node list \<Rightarrow> nat" where
  "queue_weight Q = (\<Sum>N\<leftarrow>Q. subtree_size (length (seq_rem N)))"

text \<open>
  Modelled from the spec: steps 2 and 3 of the algorithm of section 4.3. The first argument
  is the optional candidate of step 2a: \<open>None\<close> when no candidate schedule is recorded on
  tightening, \<open>Some order\<close> when the candidate is the roll-out of the node in that order.
\<close>

function bnb_loop ::
  "(sched_node \<Rightarrow> nat list) option \<Rightarrow> sched_node list \<Rightarrow> real option \<Rightarrow> schedule option \<Rightarrow>
     (schedule option \<times> real option) result" where
  "bnb_loop cand [] U S = Ok (S, U)"
| "bnb_loop cand (x # xs) U S =
     (let N = pop_best x xs; Q = remove1 N (x # xs)
      in if \<not> below (loss_lower N) U then bnb_loop cand Q U S
         else if seq_rem N = [] then
           (if below (loss N) U then bnb_loop cand Q (Some (loss N)) (Some (t_ex N, ch_ex N))
            else bnb_loop cand Q U S)
         else
           (case (if below (loss_upper N) U then
                    (case cand of
                       None \<Rightarrow> Ok (Some (loss_upper N), S)
                     | Some order \<Rightarrow>
                         (case roll_out order N of
                            Fault e \<Rightarrow> Fault e
                          | Ok M \<Rightarrow> Ok (Some (loss_upper N), Some (t_ex M, ch_ex M))))
                  else Ok (U, S)) of
              Fault e \<Rightarrow> Fault e
            | Ok (U', S') \<Rightarrow>
                (case branch N of
                   Fault e \<Rightarrow> Fault e
                 | Ok children \<Rightarrow>
                     bnb_loop cand (Q @ filter (\<lambda>C. below (loss_lower C) U') children) U' S')))"
  by pat_completeness auto

text \<open>
  Modelled from the spec: the driver of section 4.3 with the default priority: the queue
  holds the root node, the incumbent bound is \<open>+\<infinity>\<close> and there is no incumbent schedule.
\<close>

definition branch_and_bound ::
  "(sched_node \<Rightarrow> nat list) option \<Rightarrow> ReluDrop list \<Rightarrow> real list \<Rightarrow>
     (schedule option \<times> real option) result" where
  "branch_and_bound cand ts ch = bnb_loop cand [new_node ts ch] None None"

text \<open>Modelled from the spec: \<open>eval_loss(tasks, t_ex)\<close> of section 6, the sum of the task
  losses at the execution times; a task without an execution time contributes nothing.\<close>

definition eval_loss :: "ReluDrop list \<Rightarrow> real option list \<Rightarrow> real" where
  "eval_loss ts tx =
     (\<Sum>i<length ts. case tx ! i of None \<Rightarrow> 0 | Some t \<Rightarrow> task_loss (ts ! i) t)"




text \<open>
  The nodes that the search can meet: those made from the root by \<open>extend\<close>. A roll-out
  order respects the upper bound when, from every such node that is not terminal, the
  roll-out ends in a terminal node whose loss is at most the upper bound of the node.
\<close>

definition reachable :: "ReluDrop list \<Rightarrow> real list \<Rightarrow> sched_node \<Rightarrow> bool" where
  "reachable ts ch N \<longleftrightarrow> (\<exists>s. extend_many (new_node ts ch) s = Ok N)"

definition respects_upper :: "ReluDrop list \<Rightarrow> real list \<Rightarrow> (sched_node \<Rightarrow> nat list) \<Rightarrow> bool" where
  "respects_upper ts ch order \<longleftrightarrow>
     (\<forall>N. reachable ts ch N \<and> seq_rem N \<noteq> [] \<longrightarrow>
        (\<exists>M. roll_out order N = Ok M \<and> seq_rem M = [] \<and> loss M \<le> loss_upper N))"





text \<open>
  Example problems on one channel that is free at time 0: two tasks in the manner of seed
  scenario S1 (the second with drop time 5, so that \<open>l_drop \<ge> slope * t_drop\<close> holds), and
  a long task with a late drop time next to a short task with an early one.
\<close>

definition task_p :: ReluDrop where
  "task_p = \<lparr>duration = 2, t_release = 0, slope = 1, t_drop = 10, l_drop = 10\<rparr>"

definition task_q :: ReluDrop where
  "task_q = \<lparr>duration = 3, t_release = 0, slope = 2, t_drop = 5, l_drop = 10\<rparr>"





definition task_long :: ReluDrop where
  "task_long = \<lparr>duration = 4, t_release = 0, slope = 0, t_drop = 10, l_drop = 1\<rparr>"

definition task_short :: ReluDrop where
  "task_short = \<lparr>duration = 1, t_release = 0, slope = 0, t_drop = 2, l_drop = 1\<rparr>"

section \<open>Properties of the task model\<close>

lemma call_cases:
  "call T t =
     (if t_drop T \<le> t - t_release T then Some (l_drop T)
      else if t - t_release T < - (1 / 10 ^ 9) then None
      else Some (slope T * (t - t_release T)))"
  by (simp add: call_def Let_def)

lemma call_released:
  "0 \<le> e \<Longrightarrow>
     call (T\<lparr>t_release := 0\<rparr>) e = Some (if t_drop T \<le> e then l_drop T else slope T * e)"
  by (simp add: call_cases)

subsection \<open>The loss function\<close>

text \<open>
  C1 (as stated, fails): the claim has \<open>nan\<close> for every \<open>t < t_release\<close>. The source masks
  with \<open>t - t_release < -1e-9\<close>, so a time less than a nanosecond before the release gets
  the linear value, here a negative loss, and not \<open>nan\<close>.
\<close>

theorem call_before_release_counterexample:
  "- (1 / 2 ^ 40) < t_release task_b \<and> call task_b (- (1 / 2 ^ 40)) = Some (- (1 / 2 ^ 40))"
  by (simp add: call_cases task_b_def)

text \<open>
  C1 (amended): for a task with \<open>t_drop \<ge> 0\<close> the loss at \<open>t\<close> is \<open>nan\<close> when
  \<open>t - t_release < -1e-9\<close>, is \<open>slope * (t - t_release)\<close> when
  \<open>-1e-9 \<le> t - t_release < t_drop\<close>, and is \<open>l_drop\<close> when \<open>t - t_release \<ge> t_drop\<close>.
\<close>

theorem call_piecewise:
  assumes "0 \<le> t_drop T"
  shows "(t - t_release T < - (1 / 10 ^ 9) \<longrightarrow> call T t = None) \<and>
         (- (1 / 10 ^ 9) \<le> t - t_release T \<and> t - t_release T < t_drop T \<longrightarrow>
            call T t = Some (slope T * (t - t_release T))) \<and>
         (t_drop T \<le> t - t_release T \<longrightarrow> call T t = Some (l_drop T))"
  using assms by (auto simp: call_cases)

theorem call_piecewise_witness:
  "call task_a 1 = None \<and> call task_a 3 = Some 1 \<and> call task_a 6 = Some 10"
  using call_piecewise [of task_a 1] call_piecewise [of task_a 3] call_piecewise [of task_a 6]
  by (simp add: task_a_def)

subsection \<open>Shifting the time origin\<close>

lemma call_fl_cases:
  "call_fl rnd T t =
     (if t_drop T \<le> rnd (t - t_release T) then Some (l_drop T)
      else if rnd (t - t_release T) < - (1 / 10 ^ 9) then None
      else Some (rnd (slope T * rnd (t - t_release T))))"
  by (simp add: call_fl_def Let_def)

lemma call_fl_exact: "call_fl no_rounding T t = call T t"
  by (simp add: call_fl_cases call_cases no_rounding_def)

lemma setters_fl_exact:
  "set_t_drop_fl no_rounding T v = set_t_drop T v"
  "set_l_drop_fl no_rounding T v = set_l_drop T v"
  by (simp_all add: set_t_drop_fl_def set_l_drop_fl_def set_t_drop_def set_l_drop_def
      check_non_decreasing_fl_def check_non_decreasing_def no_rounding_def)

text \<open>The three ways through \<open>shift_origin\<close> when the new release time is zero, and the one
  when it is positive.\<close>

lemma shift_origin_cases:
  "shift_origin rnd T d =
     (let e = rnd (d - t_release T);
          T1 = T\<lparr>t_release := 0\<rparr>;
          td = max 0 (rnd (t_drop T - e))
      in if e < 0 then (Return 0, T\<lparr>t_release := - e\<rparr>)
         else (case call_fl rnd T1 e of
                 None \<Rightarrow> (Raise NanPropagated, T1)
               | Some L \<Rightarrow>
                   if l_drop T < rnd (slope T * td) then (Raise ValueError, T1)
                   else if rnd (l_drop T - L) < rnd (slope T * td)
                     then (Raise ValueError, T1\<lparr>t_drop := td\<rparr>)
                     else (Return L, T1\<lparr>t_drop := td, l_drop := rnd (l_drop T - L)\<rparr>)))"
proof (cases "rnd (d - t_release T) < 0")
  case True
  then show ?thesis
    by (simp add: shift_origin_def Let_def max_def)
next
  case False
  then have m: "max 0 (- rnd (d - t_release T)) = 0"
    by (simp add: max_def)
  show ?thesis
    unfolding shift_origin_def Let_def m
    by (simp add: False set_t_drop_fl_def set_l_drop_fl_def check_non_decreasing_fl_def
        split: option.splits)
qed

text \<open>A rounding that leaves its own results alone (as rounding to a double does) never
  makes \<open>shift_origin\<close> evaluate the loss before the release time.\<close>

lemma shift_origin_no_nan:
  assumes "\<And>x. rnd (rnd x) = rnd x"
  shows "fst (shift_origin rnd T t) \<noteq> Raise NanPropagated"
proof (cases "rnd (t - t_release T) < 0")
  case True
  then show ?thesis
    by (simp add: shift_origin_cases Let_def)
next
  case False
  have "rnd (rnd (t - t_release T) - 0) = rnd (t - t_release T)"
    using assms by simp
  with False have "call_fl rnd (T\<lparr>t_release := 0\<rparr>) (rnd (t - t_release T)) \<noteq> None"
    by (simp add: call_fl_cases)
  then obtain L where "call_fl rnd (T\<lparr>t_release := 0\<rparr>) (rnd (t - t_release T)) = Some L"
    by (cases "call_fl rnd (T\<lparr>t_release := 0\<rparr>) (rnd (t - t_release T))") simp_all
  with False show ?thesis
    by (simp add: shift_origin_cases Let_def)
qed







text \<open>
  In exact arithmetic and inside the data model (\<open>slope \<ge> 0\<close>, \<open>t_drop \<ge> 0\<close>) the checks
  of the two setters pass: a task with \<open>l_drop \<ge> slope * t_drop\<close> that is released by the
  shift returns the loss crossed.
\<close>

lemma shift_origin_exact_returns:
  assumes s: "0 \<le> slope T" and td: "0 \<le> t_drop T" and inv: "slope T * t_drop T \<le> l_drop T"
    and e: "t_release T \<le> d"
  shows "shift_origin no_rounding T d =
     (Return (if t_drop T \<le> d - t_release T then l_drop T else slope T * (d - t_release T)),
      T\<lparr>t_release := 0, t_drop := max 0 (t_drop T - (d - t_release T)),
        l_drop := l_drop T -
          (if t_drop T \<le> d - t_release T then l_drop T else slope T * (d - t_release T))\<rparr>)"
proof (cases "t_drop T \<le> d - t_release T")
  case True
  have l0: "0 \<le> l_drop T"
    using mult_nonneg_nonneg [OF s td] inv by linarith
  have m: "max 0 (t_drop T - (d - t_release T)) = 0"
    using True by simp
  show ?thesis
    using True l0 e m
    by (simp add: shift_origin_cases Let_def call_fl_cases no_rounding_def)
next
  case False
  define x where "x = d - t_release T"
  have x0: "0 \<le> x" using e by (simp add: x_def)
  have sx: "0 \<le> slope T * x" using s x0 by (rule mult_nonneg_nonneg)
  have c1: "\<not> l_drop T < slope T * (t_drop T - x)"
    using sx inv by (simp add: right_diff_distrib)
  have c2: "\<not> l_drop T - slope T * x < slope T * (t_drop T - x)"
    using inv by (simp add: right_diff_distrib)
  have m: "max 0 (t_drop T - x) = t_drop T - x"
    using False by (simp add: x_def)
  have nx: "\<not> t_drop T \<le> x" "\<not> x < - (1 / 10 ^ 9)" "\<not> x < 0" "d - t_release T = x"
    using False x0 by (simp_all add: x_def)
  show ?thesis
    using nx c1 c2 m
    by (simp add: shift_origin_cases Let_def call_fl_cases no_rounding_def)
qed

text \<open>
  With rounding they need not pass. Take slope \<open>1 + ulp\<close>, drop time 1 and drop loss
  \<open>1 + ulp\<close> (all doubles, with \<open>l_drop = slope * t_drop\<close>), and shift by \<open>3/4\<close>. The loss
  crossed, \<open>(1 + ulp) * 3/4\<close>, lies half way between two doubles and is rounded up to
  \<open>3/4 + ulp\<close>; the new drop loss is then \<open>1/4\<close>, below the product \<open>(1 + ulp) * 1/4\<close>,
  itself a double, and the \<open>l_drop\<close> setter raises. The hypotheses are the values of
  round-to-nearest-even on the four numbers involved.
\<close>

lemma shift_origin_rounding_raises:
  assumes "rnd (1 / 4) = 1 / 4" and "rnd (3 / 4) = 3 / 4"
    and "rnd ((1 + ulp) * (1 / 4)) = (1 + ulp) * (1 / 4)"
    and "rnd ((1 + ulp) * (3 / 4)) = 3 / 4 + ulp"
  shows "shift_origin rnd task_ulp (3 / 4) =
           (Raise ValueError,
            \<lparr>duration = 1, t_release = 0, slope = 1 + ulp, t_drop = 1 / 4, l_drop = 1 + ulp\<rparr>)"
proof -
  have u: "0 < ulp" by (simp add: ulp_def)
  have e: "rnd (3 / 4 - t_release task_ulp) = 3 / 4"
    using assms(2) by (simp add: task_ulp_def)
  have e0: "rnd (3 / 4 - t_release (task_ulp\<lparr>t_release := 0\<rparr>)) = 3 / 4"
    using assms(2) by simp
  have p: "rnd (slope (task_ulp\<lparr>t_release := 0\<rparr>) * (3 / 4)) = 3 / 4 + ulp"
    using assms(4) by (simp add: task_ulp_def)
  have c: "call_fl rnd (task_ulp\<lparr>t_release := 0\<rparr>) (3 / 4) = Some (3 / 4 + ulp)"
    unfolding call_fl_cases e0 p by (simp add: task_ulp_def)
  have td: "max 0 (rnd (t_drop task_ulp - 3 / 4)) = 1 / 4"
    using assms(1) by (simp add: task_ulp_def)
  have q: "rnd (slope task_ulp * (1 / 4)) = (1 + ulp) * (1 / 4)"
    using assms(3) by (simp add: task_ulp_def)
  show ?thesis
    unfolding shift_origin_cases Let_def e c td q
    using u assms(1) by (simp add: task_ulp_def)
qed

lemma shift_origin_rounding_raises_instance:
  "shift_origin round_product task_ulp (3 / 4) =
     (Raise ValueError,
      \<lparr>duration = 1, t_release = 0, slope = 1 + ulp, t_drop = 1 / 4, l_drop = 1 + ulp\<rparr>)"
proof (rule shift_origin_rounding_raises)
  have u: "0 < ulp" by (simp add: ulp_def)
  show "round_product (1 / 4) = 1 / 4" "round_product (3 / 4) = 3 / 4"
    "round_product ((1 + ulp) * (1 / 4)) = (1 + ulp) * (1 / 4)"
    "round_product ((1 + ulp) * (3 / 4)) = 3 / 4 + ulp"
    using u by (simp_all add: round_product_def)
qed

text \<open>
  C9: whatever \<open>shift_origin\<close> does, also when a setter raises half way and whatever the
  rounding, the task's \<open>duration\<close> and \<open>slope\<close> are what they were.
\<close>

theorem shift_origin_frame:
  "duration (snd (shift_origin rnd T d)) = duration T \<and>
   slope (snd (shift_origin rnd T d)) = slope T"
  by (simp add: shift_origin_cases Let_def split: option.splits)

subsection \<open>Construction and the property setters\<close>

text \<open>
  C3 (as stated, fails): the constructor has no check. A negative duration with a negative
  release time is stored as it is.
\<close>

theorem init_negative_counterexample:
  "ReluDrop_init (- 1) (- 2) 1 4 10 =
     Return \<lparr>duration = - 1, t_release = - 2, slope = 1, t_drop = 4, l_drop = 10\<rparr>"
  by (simp add: ReluDrop_init_def)

text \<open>
  C3 (amended): construction checks neither the duration nor the release time; every
  parameter combination with \<open>l_drop \<ge> slope * t_drop\<close>, a negative duration or a negative
  release time included, gives a task that holds the five values as given.
\<close>

theorem init_stores_parameters:
  assumes "s * td \<le> ld"
  shows "ReluDrop_init d r s td ld =
           Return \<lparr>duration = d, t_release = r, slope = s, t_drop = td, l_drop = ld\<rparr>"
  by (simp add: ReluDrop_init_def)

theorem init_stores_parameters_witness:
  "(1 :: real) * 4 \<le> 10 \<and>
   ReluDrop_init (- 1) (- 2) 1 4 10 =
     Return \<lparr>duration = - 1, t_release = - 2, slope = 1, t_drop = 4, l_drop = 10\<rparr>"
proof -
  have h: "(1 :: real) * 4 \<le> 10" by simp
  from init_stores_parameters [OF h, of "- 1" "- 2"] h show ?thesis by simp
qed

text \<open>
  C10: assigning \<open>v\<close> to \<open>slope\<close>, \<open>t_drop\<close> or \<open>l_drop\<close> raises \<open>ValueError\<close> and leaves the
  task as it was when the new value would give \<open>l_drop < slope * t_drop\<close>; otherwise it
  returns and the task differs in the assigned attribute only. This holds for every task,
  so for those that satisfy the inequality before the assignment.
\<close>

theorem setters_atomic:
  "(l_drop T < v * t_drop T \<longrightarrow> set_slope T v = (Raise ValueError, T)) \<and>
   (\<not> l_drop T < v * t_drop T \<longrightarrow> set_slope T v = (Return (), T\<lparr>slope := v\<rparr>)) \<and>
   (l_drop T < slope T * v \<longrightarrow> set_t_drop T v = (Raise ValueError, T)) \<and>
   (\<not> l_drop T < slope T * v \<longrightarrow> set_t_drop T v = (Return (), T\<lparr>t_drop := v\<rparr>)) \<and>
   (v < slope T * t_drop T \<longrightarrow> set_l_drop T v = (Raise ValueError, T)) \<and>
   (\<not> v < slope T * t_drop T \<longrightarrow> set_l_drop T v = (Return (), T\<lparr>l_drop := v\<rparr>))"
  by (simp add: set_slope_def set_t_drop_def set_l_drop_def check_non_decreasing_def)

theorem setters_atomic_witness:
  "set_slope task_a 3 = (Raise ValueError, task_a) \<and>
   set_t_drop task_a 3 = (Return (), task_a\<lparr>t_drop := 3\<rparr>) \<and>
   set_l_drop task_a 3 = (Raise ValueError, task_a) \<and>
   set_slope task_a 2 = (Return (), task_a\<lparr>slope := 2\<rparr>) \<and>
   set_t_drop task_a 11 = (Raise ValueError, task_a) \<and>
   set_l_drop task_a 4 = (Return (), task_a\<lparr>l_drop := 4\<rparr>)"
proof -
  have v: "l_drop task_a < 3 * t_drop task_a" "\<not> l_drop task_a < slope task_a * 3"
    "3 < slope task_a * t_drop task_a" "\<not> l_drop task_a < 2 * t_drop task_a"
    "l_drop task_a < slope task_a * 11" "\<not> 4 < slope task_a * t_drop task_a"
    by (simp_all add: task_a_def)
  have a: "set_slope task_a 3 = (Raise ValueError, task_a) \<and>
      set_t_drop task_a 3 = (Return (), task_a\<lparr>t_drop := 3\<rparr>) \<and>
      set_l_drop task_a 3 = (Raise ValueError, task_a)"
    using setters_atomic [of task_a 3] v(1,2,3) by simp
  have b: "set_slope task_a 2 = (Return (), task_a\<lparr>slope := 2\<rparr>)"
    using setters_atomic [of task_a 2] v(4) by simp
  have c: "set_t_drop task_a 11 = (Raise ValueError, task_a)"
    using setters_atomic [of task_a 11] v(5) by simp
  have d: "set_l_drop task_a 4 = (Return (), task_a\<lparr>l_drop := 4\<rparr>)"
    using setters_atomic [of task_a 4] v(6) by simp
  from a b c d show ?thesis by simp
qed

section \<open>Properties of the factorial-base encodings\<close>

lemma int_to_seq_loop_Nil [simp]: "int_to_seq_loop [] num sq = Return sq"
  by (simp add: int_to_seq_loop.simps)

definition int_to_seq :: "int \<Rightarrow> nat \<Rightarrow> bool \<Rightarrow> int list outcome" where
  "int_to_seq num len check_input =
     (if check_input \<and> \<not> (0 \<le> num \<and> num < fact len) then Raise ValueError
      else int_to_seq_loop (range_list len) num [])"


lemma list_index_mem:
  "n \<in> set xs \<Longrightarrow> \<exists>k. list_index xs n = Return k \<and> k < length xs \<and> xs ! k = n"
  by (induction xs) auto

lemma list_index_not_mem: "n \<notin> set xs \<Longrightarrow> list_index xs n = Raise ValueError"
  by (induction xs) auto

lemma list_index_nth:
  "distinct xs \<Longrightarrow> k < length xs \<Longrightarrow> list_index xs (xs ! k) = Return k"
proof (induction xs arbitrary: k)
  case Nil
  then show ?case by simp
next
  case (Cons x xs)
  show ?case
  proof (cases k)
    case 0
    then show ?thesis by simp
  next
    case (Suc j)
    with Cons.prems have "j < length xs" "xs ! j \<in> set xs" "x \<notin> set xs" by auto
    then have "x \<noteq> xs ! j" by auto
    with Cons.IH [of j] Cons.prems Suc show ?thesis by simp
  qed
qed

lemma list_remove_mem: "n \<in> set xs \<Longrightarrow> list_remove xs n = Return (remove1 n xs)"
  by (induction xs) auto

lemma remove1_nth:
  "distinct xs \<Longrightarrow> k < length xs \<Longrightarrow> remove1 (xs ! k) xs = take k xs @ drop (Suc k) xs"
proof (induction xs arbitrary: k)
  case Nil
  then show ?case by simp
next
  case (Cons x xs)
  show ?case
  proof (cases k)
    case 0
    then show ?thesis by simp
  next
    case (Suc j)
    with Cons.prems have "j < length xs" "xs ! j \<in> set xs" "x \<notin> set xs" by auto
    then have "x \<noteq> xs ! j" by auto
    with Cons.IH [of j] Cons.prems Suc show ?thesis by simp
  qed
qed

lemma list_pop_nth:
  "k < length xs \<Longrightarrow> list_pop xs (int k) = Return (xs ! k, take k xs @ drop (Suc k) xs)"
  by (simp add: list_pop_def Let_def)

lemma digit_div:
  fixes v r :: int
  assumes "0 \<le> v" "v < r"
  shows "(int k * r + v) div r = int k" and "(int k * r + v) mod r = v"
  using assms by (simp_all add: div_pos_pos_trivial)

lemma encode_decode_loop:
  assumes "distinct sq" and "distinct srem" and "set sq = set srem"
    and "len = i + length sq"
  shows "\<exists>v. seq_to_int_loop len srem num i sq = Return (num + v) \<and> 0 \<le> v \<and>
             v < fact (length sq) \<and>
             (\<forall>acc. int_to_seq_loop srem v acc = Return (acc @ sq))"
  using assms
proof (induction sq arbitrary: srem num i)
  case Nil
  then show ?case by simp
next
  case (Cons n ns)
  from Cons.prems have n_in: "n \<in> set srem" by auto
  then obtain k where k: "list_index srem n = Return k" "k < length srem" "srem ! k = n"
    using list_index_mem by blast
  have rm: "list_remove srem n = Return (remove1 n srem)"
    using n_in by (rule list_remove_mem)
  have len_rem: "length srem = Suc (length ns)"
    using Cons.prems distinct_card [of srem] distinct_card [of "n # ns"] by simp
  have d': "distinct (remove1 n srem)" using Cons.prems by simp
  have s': "set ns = set (remove1 n srem)"
    using Cons.prems by (auto simp: set_remove1_eq)
  have l': "len = Suc i + length ns" using Cons.prems by simp
  from Cons.prems have dns: "distinct ns" by simp
  define num' where "num' = num + int k * fact (len - 1 - i)"
  from Cons.IH [OF dns d' s' l', of num'] obtain v where
    v: "seq_to_int_loop len (remove1 n srem) num' (Suc i) ns = Return (num' + v)"
      "0 \<le> v" "v < fact (length ns)"
      "\<And>acc. int_to_seq_loop (remove1 n srem) v acc = Return (acc @ ns)"
    by blast
  have fl: "len - Suc i = length ns" using l' by simp
  let ?w = "int k * fact (length ns) + v"
  have enc: "seq_to_int_loop len srem num i (n # ns) = Return (num + ?w)"
    using k(1) rm v(1) by (simp add: num'_def fl)
  have w0: "0 \<le> ?w" using v(2) by simp
  have "?w < (int k + 1) * fact (length ns)"
    using v(3) by (simp add: algebra_simps)
  also have "\<dots> \<le> int (Suc (length ns)) * fact (length ns)"
    using k(2) len_rem by (intro mult_right_mono) auto
  finally have wlt: "?w < fact (length (n # ns))" by simp
  have dec: "int_to_seq_loop srem ?w acc = Return (acc @ n # ns)" for acc
  proof -
    have pop: "list_pop srem (int k) = Return (n, remove1 n srem)"
      using list_pop_nth [OF k(2)] remove1_nth [OF Cons.prems(2) k(2)] k(3) by simp
    have dv: "?w div fact (length ns) = int k" "?w mod fact (length ns) = v"
      using digit_div [OF v(2) v(3)] by simp_all
    show ?thesis
      using len_rem pop dv v(4) [of "acc @ [n]"]
      by (subst int_to_seq_loop.simps) (simp add: Let_def)
  qed
  from enc w0 wlt dec show ?case by blast
qed


lemma int_div_less_bound:
  fixes a r s :: int
  assumes "a < s * r" and "0 < r"
  shows "a div r < s"
proof (rule ccontr)
  assume "\<not> a div r < s"
  then have "s * r \<le> a div r * r" using assms(2) by (intro mult_right_mono) auto
  moreover have "a div r * r \<le> a"
    using assms(2) pos_mod_sign [of r a] minus_mod_eq_div_mult [of a r] by linarith
  ultimately show False using assms(1) by linarith
qed

lemma decode_encode_loop:
  assumes "distinct srem" and "0 \<le> num" and "num < fact (length srem)"
  shows "\<exists>sq. int_to_seq_loop srem num acc = Return (acc @ sq) \<and> distinct sq \<and>
               set sq = set srem \<and>
               (\<forall>len i base. len = i + length srem \<longrightarrow>
                   seq_to_int_loop len srem base i sq = Return (base + num))"
  using assms
proof (induction "length srem" arbitrary: srem num acc)
  case 0
  then show ?case by simp
next
  case (Suc m)
  let ?r = "fact m :: int"
  let ?k = "nat (num div ?r)"
  have r0: "0 < ?r" by simp
  have len: "length srem = Suc m" using Suc.hyps(2) by simp
  have d0: "0 \<le> num div ?r" using Suc.prems(2) r0 by (simp add: pos_imp_zdiv_nonneg_iff)
  have "num < int (Suc m) * ?r" using Suc.prems(3) len by (simp add: algebra_simps)
  then have "num div ?r < int (Suc m)"
    using r0 by (rule int_div_less_bound)
  then have klt: "?k < length srem" using d0 len by linarith
  have ki: "int ?k = num div ?r" using d0 by simp
  let ?n = "srem ! ?k"
  let ?rem = "take ?k srem @ drop (Suc ?k) srem"
  have rem_eq: "remove1 ?n srem = ?rem"
    using remove1_nth [OF Suc.prems(1) klt] .
  have n_in: "?n \<in> set srem" using klt by simp
  have d': "distinct ?rem" using Suc.prems(1) rem_eq [symmetric] by simp
  have l': "m = length ?rem" using klt len by simp
  have m0: "0 \<le> num mod ?r" and m1: "num mod ?r < fact (length ?rem)"
    using r0 l' [symmetric] by simp_all
  from Suc.hyps(1) [OF l' d' m0 m1, of "acc @ [?n]"] obtain sq' where
    s: "int_to_seq_loop ?rem (num mod ?r) (acc @ [?n]) = Return ((acc @ [?n]) @ sq')"
       "distinct sq'" "set sq' = set ?rem"
       "\<And>len i base. len = i + length ?rem \<Longrightarrow>
           seq_to_int_loop len ?rem base i sq' = Return (base + num mod ?r)"
    by blast
  have pop: "list_pop srem (num div ?r) = Return (?n, ?rem)"
    using list_pop_nth [OF klt] ki by simp
  have dec: "int_to_seq_loop srem num acc = Return (acc @ ?n # sq')"
    using len pop s(1) by (subst int_to_seq_loop.simps) (simp add: Let_def)
  have set_rem: "set ?rem = set srem - {?n}"
    using rem_eq [symmetric] Suc.prems(1) by (simp add: set_remove1_eq)
  have dist: "distinct (?n # sq')" using s(2) s(3) set_rem by simp
  have sets: "set (?n # sq') = set srem" using s(3) set_rem n_in by auto
  have enc: "seq_to_int_loop len srem base i (?n # sq') = Return (base + num)"
    if "len = i + length srem" for len i base
  proof -
    have idx: "list_index srem ?n = Return ?k"
      using list_index_nth [OF Suc.prems(1) klt] .
    have rm: "list_remove srem ?n = Return ?rem"
      using list_remove_mem [OF n_in] rem_eq by simp
    have fl: "len - Suc i = m" using that len by simp
    have l2: "len = Suc i + length ?rem" using that len l' by simp
    have "int ?k * ?r + num mod ?r = num" using ki by (simp add: mult.commute)
    then have eq: "base + int ?k * ?r + num mod ?r = base + num" by simp
    show ?thesis
      using s(4) [OF l2, of "base + int ?k * ?r"] idx rm eq by (simp add: fl)
  qed
  from dec dist sets enc show ?case by blast
qed

lemma distinct_range_list: "distinct (range_list n)"
  by (simp add: range_list_def distinct_map inj_on_def)

lemma length_range_list: "length (range_list n) = n"
  by (simp add: range_list_def)

lemma set_eq_range_imp_distinct:
  assumes "set sq = set (range_list (length sq))"
  shows "distinct sq"
proof -
  have "card (set sq) = length sq"
    using assms distinct_card [OF distinct_range_list, of "length sq"]
    by (simp add: length_range_list)
  then show ?thesis by (rule card_distinct)
qed

lemma range_list_0: "range_list 0 = []"
  by (simp add: range_list_def)

lemma range_list_Suc: "range_list (Suc n) = range_list n @ [int n]"
  by (simp add: range_list_def)

lemmas encoding_eval = range_list_0 range_list_Suc eval_nat_numeral seq_to_int_def int_to_seq_def
  Let_def is_permutation_def int_to_seq_loop.simps list_pop_def insert_commute

lemma seq_to_int_perm:
  assumes "is_permutation n sq"
  shows "\<exists>num. seq_to_int sq c = Return num \<and> 0 \<le> num \<and> num < fact n \<and>
               int_to_seq num n c' = Return sq"
proof -
  from assms have a: "distinct sq" "set sq = set (range_list n)" "length sq = n"
    by (simp_all add: is_permutation_def)
  have "n = 0 + length sq" using a by simp
  from encode_decode_loop [OF a(1) distinct_range_list a(2) this, of 0] obtain v where
    v: "seq_to_int_loop n (range_list n) 0 0 sq = Return v" "0 \<le> v" "v < fact (length sq)"
       "int_to_seq_loop (range_list n) v [] = Return sq"
    by force
  have "seq_to_int sq c = Return v" using v(1) a by (simp add: seq_to_int_def Let_def)
  moreover have "int_to_seq v n c' = Return sq" using v a by (simp add: int_to_seq_def)
  ultimately show ?thesis using v a by auto
qed

lemma int_to_seq_range:
  assumes "0 \<le> num" and "num < fact n"
  shows "\<exists>sq. int_to_seq num n c = Return sq \<and> is_permutation n sq \<and>
               seq_to_int sq c' = Return num"
proof -
  have "num < fact (length (range_list n))" using assms by (simp add: length_range_list)
  from decode_encode_loop [OF distinct_range_list assms(1) this, of "[]"] obtain sq where
    s: "int_to_seq_loop (range_list n) num [] = Return sq" "distinct sq"
       "set sq = set (range_list n)"
       "\<And>len i base. len = i + length (range_list n) \<Longrightarrow>
           seq_to_int_loop len (range_list n) base i sq = Return (base + num)"
    by force
  have ls: "length sq = n"
    using distinct_card [OF s(2)] distinct_card [OF distinct_range_list, of n] s(3)
    by (simp add: length_range_list)
  have "int_to_seq num n c = Return sq" using s(1) assms by (simp add: int_to_seq_def)
  moreover have "is_permutation n sq" using s ls by (simp add: is_permutation_def)
  moreover have "seq_to_int sq c' = Return num"
    using s(4) [of n 0 0] s(3) ls by (simp add: seq_to_int_def Let_def length_range_list)
  ultimately show ?thesis by blast
qed

text \<open>
  C5: whatever the two \<open>check_input\<close> flags are, \<open>seq_to_int\<close> maps a permutation of
  \<open>{0..n)\<close> to a number in \<open>range(factorial(n))\<close> that \<open>int_to_seq\<close> with length \<open>n\<close> maps
  back to the same sequence, and \<open>int_to_seq\<close> maps a number in \<open>range(factorial(n))\<close> to a
  permutation of \<open>{0..n)\<close> that \<open>seq_to_int\<close> maps back to the same number.
\<close>

theorem factorial_base_roundtrip:
  "(is_permutation n sq \<longrightarrow>
      (\<exists>k. seq_to_int sq c = Return k \<and> 0 \<le> k \<and> k < fact n \<and>
           int_to_seq k n c' = Return sq)) \<and>
   (0 \<le> num \<and> num < fact n \<longrightarrow>
      (\<exists>s. int_to_seq num n c = Return s \<and> is_permutation n s \<and>
           seq_to_int s c' = Return num))"
  using seq_to_int_perm [of n sq c c'] int_to_seq_range [of num n c c'] by blast

theorem factorial_base_roundtrip_witness:
  "is_permutation 3 [2, 0, 1] \<and> seq_to_int [2, 0, 1] True = Return 4 \<and>
   (0 :: int) \<le> 4 \<and> (4 :: int) < fact 3 \<and> int_to_seq 4 3 True = Return [2, 0, 1]"
proof -
  have p: "is_permutation 3 [2, 0, 1]" by (simp add: encoding_eval)
  have e: "seq_to_int [2, 0, 1] True = Return 4" by (simp add: encoding_eval)
  have r: "(0 :: int) \<le> 4 \<and> (4 :: int) < fact 3" by (simp add: eval_nat_numeral)
  from factorial_base_roundtrip [of 3 "[2, 0, 1]" True True 4] p e
  have "int_to_seq 4 3 True = Return [2, 0, 1]" by auto
  with p e r show ?thesis by blast
qed

text \<open>
  C6: with \<open>check_input\<close> enabled, \<open>seq_to_int\<close> raises \<open>ValueError\<close> on every sequence that
  is not a permutation of \<open>{0..len(seq))\<close> and returns on every permutation; \<open>int_to_seq\<close>
  raises \<open>ValueError\<close> on every number outside \<open>range(factorial(length))\<close> and returns on
  every number inside.
\<close>

theorem encodings_check_input:
  "(\<not> is_permutation (length sq) sq \<longrightarrow> seq_to_int sq True = Raise ValueError) \<and>
   (is_permutation (length sq) sq \<longrightarrow> (\<exists>k. seq_to_int sq True = Return k)) \<and>
   (\<not> (0 \<le> num \<and> num < fact n) \<longrightarrow> int_to_seq num n True = Raise ValueError) \<and>
   (0 \<le> num \<and> num < fact n \<longrightarrow> (\<exists>s. int_to_seq num n True = Return s))"
proof (intro conjI impI)
  assume "\<not> is_permutation (length sq) sq"
  then have "set sq \<noteq> set (range_list (length sq))"
    using set_eq_range_imp_distinct [of sq] by (auto simp: is_permutation_def)
  then show "seq_to_int sq True = Raise ValueError"
    by (simp add: seq_to_int_def Let_def)
next
  assume "is_permutation (length sq) sq"
  from seq_to_int_perm [OF this, of True True]
  show "\<exists>k. seq_to_int sq True = Return k" by blast
next
  assume "\<not> (0 \<le> num \<and> num < fact n)"
  then show "int_to_seq num n True = Raise ValueError"
    by (simp add: int_to_seq_def)
next
  assume "0 \<le> num \<and> num < fact n"
  then have "0 \<le> num" "num < fact n" by simp_all
  from int_to_seq_range [OF this, of True True]
  show "\<exists>s. int_to_seq num n True = Return s" by blast
qed

theorem encodings_check_input_witness:
  "seq_to_int [2, 2, 1] True = Raise ValueError \<and>
   seq_to_int [0, 1, 3] True = Raise ValueError \<and>
   (\<exists>k. seq_to_int [2, 0, 1] True = Return k) \<and>
   int_to_seq 6 3 True = Raise ValueError \<and>
   int_to_seq (- 1) 3 True = Raise ValueError \<and>
   (\<exists>s. int_to_seq 4 3 True = Return s)"
proof -
  have p: "\<not> is_permutation (length [2, 2, 1 :: int]) [2, 2, 1]"
    "\<not> is_permutation (length [0, 1, 3 :: int]) [0, 1, 3]"
    "is_permutation (length [2, 0, 1 :: int]) [2, 0, 1]"
    by code_simp+
  have r: "\<not> (0 \<le> (6 :: int) \<and> (6 :: int) < fact 3)"
    "\<not> (0 \<le> (- 1 :: int) \<and> (- 1 :: int) < fact 3)"
    "0 \<le> (4 :: int) \<and> (4 :: int) < fact 3"
    by (simp_all add: eval_nat_numeral)
  have a: "seq_to_int [2, 2, 1] True = Raise ValueError \<and> int_to_seq 6 3 True = Raise ValueError"
    using encodings_check_input [of "[2, 2, 1]" 6 3] p(1) r(1) by simp
  have b: "seq_to_int [0, 1, 3] True = Raise ValueError \<and>
      int_to_seq (- 1) 3 True = Raise ValueError"
    using encodings_check_input [of "[0, 1, 3]" "- 1" 3] p(2) r(2) by simp
  have c: "(\<exists>k. seq_to_int [2, 0, 1] True = Return k) \<and> (\<exists>s. int_to_seq 4 3 True = Return s)"
    using encodings_check_input [of "[2, 0, 1]" 4 3] p(3) r(3) by simp
  from a b c show ?thesis by simp
qed

subsection \<open>Shape checks of reset\<close>

text \<open>
  C7 (as stated, fails): with \<open>persist = True\<close>, \<open>BaseTaskingEnv.reset\<close> skips the whole
  block that holds the length checks. A task list of the wrong length is then ignored, and
  the call returns normally with a node built from the stored problem.
\<close>

theorem reset_persist_counterexample:
  "length [7 :: nat] \<noteq> te_n_tasks TE0 \<and>
   BaseTaskingEnv_reset X0 TE0 (Some [7]) (Some [0]) True False =
     (Return (), TE0\<lparr>te_node := Some ([0, 1], [0]), te_loss_agg := Some 0\<rparr>)"
  by (simp add: BaseTaskingEnv_reset_def BaseTaskingEnv_reset_node_def X0_def TE0_def)

text \<open>
  C7 (amended): when both inputs are given, \<open>Base.reset\<close>, and \<open>BaseTaskingEnv.reset\<close> with
  \<open>persist = False\<close>, raise \<open>ValueError\<close> on a task list whose length is not \<open>n_tasks\<close> or a
  channel list whose length is not \<open>n_ch\<close>, and leave the environment, its node included,
  as it was.
\<close>

theorem reset_bad_shape:
  assumes "length tks \<noteq> n_tasks E \<or> length cha \<noteq> n_ch E"
    and "length tks \<noteq> te_n_tasks E' \<or> length cha \<noteq> te_n_ch E'"
  shows "Base_reset X E (Some tks) (Some cha) solve = (Raise ValueError, E) \<and>
         BaseTaskingEnv_reset X E' (Some tks) (Some cha) False solve = (Raise ValueError, E')"
  using assms by (auto simp: Base_reset_def BaseTaskingEnv_reset_def)

theorem reset_bad_shape_witness:
  "Base_reset X0 E0 (Some [7]) (Some [0]) False = (Raise ValueError, E0) \<and>
   Base_reset X0 E0 (Some [0, 1]) (Some [0, 0]) False = (Raise ValueError, E0) \<and>
   BaseTaskingEnv_reset X0 TE0 (Some [7]) (Some [0]) False False = (Raise ValueError, TE0) \<and>
   BaseTaskingEnv_reset X0 TE0 (Some [0, 1]) (Some [0, 0]) False False = (Raise ValueError, TE0)"
  using reset_bad_shape [of "[7]" E0 "[0]" TE0 X0 False]
    reset_bad_shape [of "[0, 1]" E0 "[0, 0]" TE0 X0 False]
  by (simp add: E0_def TE0_def)

section \<open>Properties of schedule nodes and of branch-and-bound\<close>

subsection \<open>Termination of the search\<close>

lemma pop_best_mem: "pop_best b xs \<in> set (b # xs)"
  by (induction xs arbitrary: b) auto

lemma subtree_size_pos: "0 < subtree_size k"
  by (cases k) simp_all

lemma queue_weight_remove1:
  "N \<in> set Q \<Longrightarrow>
     queue_weight Q = subtree_size (length (seq_rem N)) + queue_weight (remove1 N Q)"
  unfolding queue_weight_def by (rule sum_list_map_remove1)

lemma queue_weight_append [simp]: "queue_weight (P @ Q) = queue_weight P + queue_weight Q"
  by (simp add: queue_weight_def)

lemma queue_weight_filter: "queue_weight (filter P Q) \<le> queue_weight Q"
  by (induction Q) (auto simp: queue_weight_def)

lemma collect_map_Ok:
  "collect (map f xs) = Ok ys \<Longrightarrow> map Ok ys = map f xs"
proof (induction xs arbitrary: ys)
  case Nil
  then show ?case by simp
next
  case (Cons x xs)
  then show ?case by (auto split: result.splits)
qed


lemma extend_Ok_iff:
  "extend N i = Ok M \<longleftrightarrow> i \<in> set (seq_rem N) \<and> ch_avail N \<noteq> [] \<and> M = extend_core N i"
  by (auto simp: extend_def)

lemma seq_rem_extend_core [simp]: "seq_rem (extend_core N i) = remove1 i (seq_rem N)"
  by (simp add: extend_core_def Let_def)

lemma branch_Ok:
  assumes "branch N = Ok cs"
  shows "cs = map (extend_core N) (seq_rem N)"
proof -
  from assms have m: "map Ok cs = map (extend N) (seq_rem N)"
    unfolding branch_def by (rule collect_map_Ok)
  then have len: "length cs = length (seq_rem N)"
    using length_map [of Ok cs] length_map [of "extend N" "seq_rem N"] by simp
  show ?thesis
  proof (rule nth_equalityI)
    show "length cs = length (map (extend_core N) (seq_rem N))" using len by simp
  next
    fix k assume k: "k < length cs"
    from m have "map Ok cs ! k = map (extend N) (seq_rem N) ! k" by simp
    then have "extend N (seq_rem N ! k) = Ok (cs ! k)" using k len by simp
    then show "cs ! k = map (extend_core N) (seq_rem N) ! k"
      using k len by (simp add: extend_Ok_iff)
  qed
qed

lemma branch_weight:
  assumes "branch N = Ok cs" and "seq_rem N \<noteq> []"
  shows "queue_weight cs < subtree_size (length (seq_rem N))"
proof -
  obtain k where k: "length (seq_rem N) = Suc k"
    using assms(2) by (cases "seq_rem N") auto
  have cs: "cs = map (extend_core N) (seq_rem N)" using assms(1) by (rule branch_Ok)
  have "map (\<lambda>C. subtree_size (length (seq_rem C))) cs = map (\<lambda>i. subtree_size k) (seq_rem N)"
    unfolding cs map_map by (rule map_cong) (simp_all add: k length_remove1)
  then have "queue_weight cs = (\<Sum>i\<leftarrow>seq_rem N. subtree_size k)"
    by (simp add: queue_weight_def)
  also have "\<dots> = Suc k * subtree_size k"
    using k by (simp add: sum_list_triv)
  finally show ?thesis using k by simp
qed

termination bnb_loop
proof (relation "measure (\<lambda>(cand, Q, U, S). queue_weight Q)")
  show "wf (measure (\<lambda>(cand, Q, U, S). queue_weight Q))" by simp
next
  fix cand :: "(sched_node \<Rightarrow> nat list) option" and x xs U and S :: "schedule option" and N Q
  assume "N = pop_best x xs" "Q = remove1 N (x # xs)"
  then show "((cand, Q, U, S), cand, x # xs, U, S) \<in> measure (\<lambda>(cand, Q, U, S). queue_weight Q)"
    using queue_weight_remove1 [OF pop_best_mem, of x xs] subtree_size_pos by simp
next
  fix cand :: "(sched_node \<Rightarrow> nat list) option" and x xs U and S :: "schedule option" and N Q
  assume "N = pop_best x xs" "Q = remove1 N (x # xs)"
  then show "((cand, Q, Some (loss N), Some (t_ex N, ch_ex N)), cand, x # xs, U, S)
      \<in> measure (\<lambda>(cand, Q, U, S). queue_weight Q)"
    using queue_weight_remove1 [OF pop_best_mem, of x xs] subtree_size_pos by simp
next
  fix cand :: "(sched_node \<Rightarrow> nat list) option" and x xs U and S :: "schedule option" and N Q
  assume "N = pop_best x xs" "Q = remove1 N (x # xs)"
  then show "((cand, Q, U, S), cand, x # xs, U, S) \<in> measure (\<lambda>(cand, Q, U, S). queue_weight Q)"
    using queue_weight_remove1 [OF pop_best_mem, of x xs] subtree_size_pos by simp
next
  fix cand :: "(sched_node \<Rightarrow> nat list) option" and x xs U and S :: "schedule option"
    and N Q x1 U' S' cs
  assume a: "N = pop_best x xs" "Q = remove1 N (x # xs)" "seq_rem N \<noteq> []" "branch N = Ok cs"
  have "queue_weight (filter (\<lambda>C. below (loss_lower C) U') cs) < subtree_size (length (seq_rem N))"
    using queue_weight_filter [of "\<lambda>C. below (loss_lower C) U'" cs] branch_weight [OF a(4) a(3)]
    by simp
  then show "((cand, Q @ filter (\<lambda>C. below (loss_lower C) U') cs, U', S'), cand, x # xs, U, S)
      \<in> measure (\<lambda>(cand, Q, U, S). queue_weight Q)"
    using queue_weight_remove1 [OF pop_best_mem, of x xs] a(1,2) by simp
qed

declare bnb_loop.simps [simp del]

subsection \<open>Schedule nodes\<close>

lemma call_task_loss: "t_release T \<le> t \<Longrightarrow> call T t = Some (task_loss T t)"
  by (simp add: call_cases task_loss_def)
















lemma reachable_root: "reachable ts ch (new_node ts ch)"
  unfolding reachable_def by (rule exI [of _ "[]"]) simp









subsection \<open>The invariant of the search\<close>










subsection \<open>Optimality of branch-and-bound\<close>

lemmas bnb_eval = branch_and_bound_def bnb_loop.simps new_node_def Let_def below_def
  loss_lower_def loss_upper_def task_loss_def branch_def extend_def extend_core_def
  argmin_ch_def roll_out_def better_def eval_loss_def







text \<open>
  The condition on the roll-out is needed. For the long and the short task the upper bound
  of the root is 0; the roll-out in ascending task order starts the short task at 4, after
  its drop time, with loss 1, above that bound. Both children are pruned and the search
  returns the roll-out, although the sequence 1, 0 has loss 0.
\<close>

lemma roll_out_above_upper_bound:
  "branch_and_bound (Some seq_rem) [task_long, task_short] [0] =
     Ok (Some ([Some 0, Some 4], [Some 0, Some 0]), Some 0) \<and>
   eval_loss [task_long, task_short] [Some 0, Some 4] = 1 \<and>
   loss_upper (new_node [task_long, task_short] [0]) = 0 \<and>
   \<not> respects_upper [task_long, task_short] [0] seq_rem"
proof -
  have b: "branch_and_bound (Some seq_rem) [task_long, task_short] [0] =
      Ok (Some ([Some 0, Some 4], [Some 0, Some 0]), Some 0)"
    by (simp add: bnb_eval task_long_def task_short_def)
  have e: "eval_loss [task_long, task_short] [Some 0, Some 4] = 1"
    by (simp add: eval_loss_def task_loss_def task_long_def task_short_def lessThan_Suc)
  have u: "loss_upper (new_node [task_long, task_short] [0]) = 0"
    by (simp add: bnb_eval task_long_def task_short_def)
  have ro: "roll_out seq_rem (new_node [task_long, task_short] [0]) =
      Ok \<lparr>tasks = [task_long, task_short], ch_avail = [5], seq = [0, 1], seq_rem = [],
          t_ex = [Some 0, Some 4], ch_ex = [Some 0, Some 0], loss = 1\<rparr>"
    by (simp add: bnb_eval task_long_def task_short_def)
  have n: "\<not> respects_upper [task_long, task_short] [0] seq_rem"
  proof
    assume "respects_upper [task_long, task_short] [0] seq_rem"
    then have "reachable [task_long, task_short] [0] (new_node [task_long, task_short] [0]) \<and>
        seq_rem (new_node [task_long, task_short] [0]) \<noteq> [] \<longrightarrow>
        (\<exists>M. roll_out seq_rem (new_node [task_long, task_short] [0]) = Ok M \<and> seq_rem M = [] \<and>
             loss M \<le> loss_upper (new_node [task_long, task_short] [0]))"
      unfolding respects_upper_def by (elim allE)
    moreover have "seq_rem (new_node [task_long, task_short] [0]) \<noteq> []"
      by (simp add: new_node_def)
    ultimately have "\<exists>M. roll_out seq_rem (new_node [task_long, task_short] [0]) = Ok M \<and>
        seq_rem M = [] \<and> loss M \<le> loss_upper (new_node [task_long, task_short] [0])"
      using reachable_root [of "[task_long, task_short]" "[0]"] by simp
    then show False unfolding ro u by simp
  qed
  from b e u n show ?thesis by (intro conjI)
qed

lemma branch_and_bound_no_candidate:
  "branch_and_bound None [task_p, task_q] [0] = Ok (None, Some 3)"
  by (simp add: bnb_eval task_p_def task_q_def)

end
